theory Spec2Isabelle
  imports Complex_Main
begin

section \<open>ppsplit: paragraph segmentation by windowed cosine similarity\<close>

text \<open>
  The development embeds \<^verbatim>\<open>process_large_text\<close> (lines 29 to 83 of ppsplit.py) and
  the text transform of \<^verbatim>\<open>save_result\<close> (line 135).

  The spaCy pipeline is an external collaborator. Its result is the input of the model:
  the list of stripped sentence texts (line 27) together with the vector that
  \<^verbatim>\<open>nlp(sent).vector\<close> gives for each of them (line 37), as a list of pairs, so that
  the two lists the code builds in lockstep have the same length. The progress callback
  of line 39 is a notification to the caller and is left out.

  Numbers. The components of the vectors are finite; they are modelled as reals, so
  rounding, overflow and underflow of the 32-bit floats are not modelled. What numpy
  does where the reals have no answer is modelled: a division by zero raises nothing
  (numpy scalars only warn), it yields NaN for 0/0 and a signed infinity otherwise, and
  these values propagate through the mean and make every comparison with NaN false.
\<close>

subsection \<open>Python and numpy primitives\<close>

type_synonym vec = "real list"

datatype npfloat = Fin real | PInf | NInf | NaN

text \<open>The exception of numpy for rows that do not form an array.\<close>

datatype error = ValueError

text \<open>\<^verbatim>\<open>np.dot(v, w)\<close> on two one-dimensional arrays of one length.\<close>

definition np_dot :: "vec \<Rightarrow> vec \<Rightarrow> real" where
  "np_dot v w = sum_list (map2 (*) v w)"

text \<open>\<^verbatim>\<open>np.linalg.norm(v)\<close>: the Euclidean norm.\<close>

definition np_linalg_norm :: "vec \<Rightarrow> real" where
  "np_linalg_norm v = sqrt (sum_list (map (\<lambda>x. x * x) v))"

text \<open>The quotient \<^verbatim>\<open>a / b\<close> of two numpy scalars with finite operands.\<close>

definition np_divide :: "real \<Rightarrow> real \<Rightarrow> npfloat" where
  "np_divide a b =
     (if b = 0 then (if a = 0 then NaN else if 0 < a then PInf else NInf)
      else Fin (a / b))"

fun np_add :: "npfloat \<Rightarrow> npfloat \<Rightarrow> npfloat" where
  "np_add (Fin a) (Fin b) = Fin (a + b)"
| "np_add NaN y = NaN"
| "np_add x NaN = NaN"
| "np_add PInf NInf = NaN"
| "np_add NInf PInf = NaN"
| "np_add PInf y = PInf"
| "np_add x PInf = PInf"
| "np_add NInf y = NInf"
| "np_add x NInf = NInf"

text \<open>\<^verbatim>\<open>np.mean(xs)\<close> on a non-empty list: the sum divided by the count.\<close>

definition np_mean :: "npfloat list \<Rightarrow> npfloat" where
  "np_mean xs =
     (case foldl np_add (Fin 0) xs of
        Fin s \<Rightarrow> Fin (s / real (length xs))
      | PInf \<Rightarrow> PInf
      | NInf \<Rightarrow> NInf
      | NaN \<Rightarrow> NaN)"

text \<open>The comparison \<^verbatim>\<open>x < t\<close> of a numpy scalar with a finite Python float.\<close>

fun np_less :: "npfloat \<Rightarrow> real \<Rightarrow> bool" where
  "np_less (Fin x) t = (x < t)"
| "np_less NInf t = True"
| "np_less PInf t = False"
| "np_less NaN t = False"

text \<open>
  The slice \<^verbatim>\<open>xs[-w:]\<close> for \<open>w \<ge> 0\<close>: the last \<open>w\<close> elements, all of them when the list
  is shorter, and (since \<^verbatim>\<open>-0\<close> is \<^verbatim>\<open>0\<close>) the whole list when \<open>w = 0\<close>.
\<close>

definition last_slice :: "nat \<Rightarrow> 'a list \<Rightarrow> 'a list" where
  "last_slice w xs = (if w = 0 then xs else drop (length xs - w) xs)"

text \<open>\<^verbatim>\<open>sep.join(xs)\<close>.\<close>

fun py_join :: "string \<Rightarrow> string list \<Rightarrow> string" where
  "py_join sep [] = []"
| "py_join sep [x] = x"
| "py_join sep (x # y # ys) = x @ sep @ py_join sep (y # ys)"

text \<open>
  \<^verbatim>\<open>np.array(vectors)\<close> followed by \<^verbatim>\<open>np.linalg.norm(vectors, axis=1)\<close> needs a
  rectangular array: rows of different lengths raise (lines 41 and 42).
\<close>

definition rectangular :: "vec list \<Rightarrow> bool" where
  "rectangular vectors = list_all (\<lambda>v. length v = length (hd vectors)) vectors"

subsection \<open>The segmentation loop\<close>

record config =
  threshold :: real
  max_sentences :: nat
  window_size :: nat

text \<open>The values the code fixes at lines 49 to 51.\<close>

definition default_config :: config where
  "default_config = \<lparr>threshold = 65 / 100, max_sentences = 4, window_size = 2\<rparr>"

record loop_state =
  paragraphs :: "string list"
  current_para :: "string list"
  prev_vectors :: "vec list"

text \<open>Line 59: the similarity of a window vector \<open>v\<close> and the current vector.\<close>

definition cosine_similarity :: "vec \<Rightarrow> vec \<Rightarrow> real \<Rightarrow> npfloat" where
  "cosine_similarity v current_vec norm_i =
     np_divide (np_dot v current_vec) (norm_i * np_linalg_norm v)"

text \<open>Lines 57 to 61.\<close>

definition similarities :: "config \<Rightarrow> vec list \<Rightarrow> vec \<Rightarrow> real \<Rightarrow> npfloat list" where
  "similarities cfg pv current_vec norm_i =
     map (\<lambda>v. cosine_similarity v current_vec norm_i) (last_slice (window_size cfg) pv)"

definition avg_similarity :: "config \<Rightarrow> vec list \<Rightarrow> vec \<Rightarrow> real \<Rightarrow> npfloat" where
  "avg_similarity cfg pv current_vec norm_i =
     (let sims = similarities cfg pv current_vec norm_i
      in if sims \<noteq> [] then np_mean sims else Fin 0)"

text \<open>Lines 64 to 69: \<^verbatim>\<open>any(break_conditions)\<close>.\<close>

definition break_conditions :: "config \<Rightarrow> npfloat \<Rightarrow> nat \<Rightarrow> bool" where
  "break_conditions cfg avg n_current =
     (np_less avg (threshold cfg) \<or> max_sentences cfg \<le> n_current)"

text \<open>The body of the loop (lines 54 to 78) at index \<open>i\<close>.\<close>

definition loop_body ::
  "config \<Rightarrow> string list \<Rightarrow> vec list \<Rightarrow> real list \<Rightarrow> loop_state \<Rightarrow> nat \<Rightarrow> loop_state" where
  "loop_body cfg sentences vectors norms st i =
     (let current_vec = vectors ! i;
          avg = avg_similarity cfg (prev_vectors st) current_vec (norms ! i);
          st' = (if break_conditions cfg avg (length (current_para st))
                 then \<lparr>paragraphs = paragraphs st @ [py_join '' '' (current_para st)],
                       current_para = [sentences ! i],
                       prev_vectors = [current_vec]\<rparr>
                 else \<lparr>paragraphs = paragraphs st,
                       current_para = current_para st @ [sentences ! i],
                       prev_vectors = prev_vectors st @ [current_vec]\<rparr>)
      in st'\<lparr>prev_vectors := last_slice (window_size cfg) (prev_vectors st')\<rparr>)"

text \<open>Lines 44 to 46.\<close>

definition init_state :: "string list \<Rightarrow> vec list \<Rightarrow> loop_state" where
  "init_state sentences vectors =
     \<lparr>paragraphs = [], current_para = [sentences ! 0], prev_vectors = [vectors ! 0]\<rparr>"

text \<open>
  The state when the loop \<^verbatim>\<open>for i in range(1, len(sentences))\<close> has run the indices
  below \<open>n\<close>; the loop as a whole is \<open>run_loop \<dots> (length sentences)\<close>.
\<close>

definition run_loop ::
  "config \<Rightarrow> string list \<Rightarrow> vec list \<Rightarrow> real list \<Rightarrow> nat \<Rightarrow> loop_state" where
  "run_loop cfg sentences vectors norms n =
     foldl (loop_body cfg sentences vectors norms) (init_state sentences vectors) [1..<n]"

text \<open>Lines 80 and 81.\<close>

definition flush :: "loop_state \<Rightarrow> string list" where
  "flush st =
     (if current_para st \<noteq> [] then paragraphs st @ [py_join '' '' (current_para st)]
      else paragraphs st)"

text \<open>
  Lines 29 to 81: the list \<^verbatim>\<open>paragraphs\<close> as it stands before the final join, for the
  configuration \<open>cfg\<close> (the code's is \<open>default_config\<close>). No sentence gives no paragraph.
\<close>

definition segment :: "config \<Rightarrow> (string \<times> vec) list \<Rightarrow> error + string list" where
  "segment cfg es =
     (let sentences = map fst es in
      if sentences = [] then Inr []
      else
        let vectors = map snd es in
        if \<not> rectangular vectors then Inl ValueError
        else
          let norms = map np_linalg_norm vectors
          in Inr (flush (run_loop cfg sentences vectors norms (length sentences))))"

text \<open>Lines 29 to 83, with the configuration of lines 49 to 51.\<close>

definition process_large_text :: "(string \<times> vec) list \<Rightarrow> error + string" where
  "process_large_text es =
     (case segment default_config es of
        Inl e \<Rightarrow> Inl e
      | Inr ps \<Rightarrow> Inr (py_join [CHR 0x0A, CHR 0x0A] ps))"

subsection \<open>The blocks of sentences behind the paragraphs\<close>

text \<open>
  The code keeps each closed paragraph only as a joined string. To speak of the sentences
  of a paragraph, the loop is run once more with a recorder beside it: the state is the
  code's own (\<open>loop_body\<close> computes it), and whenever the code closes a paragraph the
  recorder keeps the list \<^verbatim>\<open>current_para\<close> that was joined. \<open>sentence_blocks\<close> is the
  list of these lists, the last one flushed as at lines 80 and 81.
\<close>

definition breaks_at :: "config \<Rightarrow> vec list \<Rightarrow> real list \<Rightarrow> loop_state \<Rightarrow> nat \<Rightarrow> bool" where
  "breaks_at cfg vectors norms st i =
     break_conditions cfg
       (avg_similarity cfg (prev_vectors st) (vectors ! i) (norms ! i))
       (length (current_para st))"

definition blocks_body ::
  "config \<Rightarrow> string list \<Rightarrow> vec list \<Rightarrow> real list \<Rightarrow>
   string list list \<times> loop_state \<Rightarrow> nat \<Rightarrow> string list list \<times> loop_state" where
  "blocks_body cfg sentences vectors norms bst i =
     (let bs = fst bst; st = snd bst
      in (if breaks_at cfg vectors norms st i then bs @ [current_para st] else bs,
          loop_body cfg sentences vectors norms st i))"

definition run_blocks ::
  "config \<Rightarrow> string list \<Rightarrow> vec list \<Rightarrow> real list \<Rightarrow> nat \<Rightarrow> string list list \<times> loop_state" where
  "run_blocks cfg sentences vectors norms n =
     foldl (blocks_body cfg sentences vectors norms) ([], init_state sentences vectors) [1..<n]"

definition flush_blocks :: "string list list \<times> loop_state \<Rightarrow> string list list" where
  "flush_blocks bst =
     (if current_para (snd bst) \<noteq> [] then fst bst @ [current_para (snd bst)] else fst bst)"

definition sentence_blocks :: "config \<Rightarrow> (string \<times> vec) list \<Rightarrow> string list list" where
  "sentence_blocks cfg es =
     (let sentences = map fst es; vectors = map snd es in
      if sentences = [] then []
      else flush_blocks
             (run_blocks cfg sentences vectors (map np_linalg_norm vectors) (length sentences)))"

subsection \<open>The time-marker transform of \<^verbatim>\<open>save_result\<close>\<close>

text \<open>
  Line 135: \<^verbatim>\<open>re.sub(r'(\[\d{2}:\d{2}\])', r'\n\n\1\n\n', processed)\<close>. The class \<^verbatim>\<open>\d\<close>
  of the regular-expression engine is the parameter \<open>digit\<close>.

  \<open>marker_at digit s\<close>: the pattern matches at the start of \<open>s\<close> (seven characters).
\<close>

definition marker_at :: "(char \<Rightarrow> bool) \<Rightarrow> string \<Rightarrow> bool" where
  "marker_at digit s =
     (7 \<le> length s \<and> s ! 0 = CHR ''['' \<and> digit (s ! 1) \<and> digit (s ! 2) \<and>
      s ! 3 = CHR '':'' \<and> digit (s ! 4) \<and> digit (s ! 5) \<and> s ! 6 = CHR '']'')"

text \<open>
  \<^verbatim>\<open>re.sub\<close> scans from the left: where the pattern matches, the match is replaced
  (two newlines, the match, two newlines) and the scan goes on behind it; elsewhere the
  character is copied and the scan moves one character on.
\<close>

function re_sub_markers :: "(char \<Rightarrow> bool) \<Rightarrow> string \<Rightarrow> string" where
  "re_sub_markers digit [] = []"
| "re_sub_markers digit (c # cs) =
     (if marker_at digit (c # cs)
      then [CHR 0x0A, CHR 0x0A] @ take 7 (c # cs) @ [CHR 0x0A, CHR 0x0A] @
           re_sub_markers digit (drop 7 (c # cs))
      else c # re_sub_markers digit cs)"
  by pat_completeness auto
termination
  by (relation "measure (\<lambda>(digit, s). length s)") auto

text \<open>The digits \<^verbatim>\<open>0\<close> to \<^verbatim>\<open>9\<close>, which \<^verbatim>\<open>\d\<close> contains.\<close>

definition ascii_digit :: "char \<Rightarrow> bool" where
  "ascii_digit c = (c \<in> set ''0123456789'')"

text \<open>
  A marker stands between blank lines at position \<open>k\<close> of \<open>s\<close>: two newlines right
  before it and two right behind it.
\<close>

definition blank_lines_around :: "string \<Rightarrow> nat \<Rightarrow> bool" where
  "blank_lines_around s k =
     (2 \<le> k \<and> take 2 (drop (k - 2) s) = [CHR 0x0A, CHR 0x0A] \<and>
      take 2 (drop (k + 7) s) = [CHR 0x0A, CHR 0x0A])"

subsection \<open>The state and the mean at a given step\<close>




text \<open>
  The similarity of line 59 for a pair of vectors, the second being the current one (its
  norm is the entry of \<^verbatim>\<open>norms\<close>).
\<close>

definition cosine :: "vec \<Rightarrow> vec \<Rightarrow> npfloat" where
  "cosine v w = cosine_similarity v w (np_linalg_norm w)"

text \<open>
  The worked example speaks of similarities of about 0.99 and about 0.1: \<open>about tol c x\<close>
  says that \<open>x\<close> is a number within \<open>tol\<close> of \<open>c\<close>.
\<close>

definition about :: "real \<Rightarrow> real \<Rightarrow> npfloat \<Rightarrow> bool" where
  "about tol c x =
     (case x of Fin r \<Rightarrow> \<bar>r - c\<bar> \<le> tol | PInf \<Rightarrow> False | NInf \<Rightarrow> False | NaN \<Rightarrow> False)"

subsection \<open>The loop over a store of mutable lists\<close>

text \<open>
  The lists of the code are mutable objects: \<^verbatim>\<open>append\<close> changes a list in place, and two
  names may be bound to one list. To speak of what a run does to the objects it is given,
  the loop is written once more over an explicit store: objects live at addresses, a
  variable holds an address, \<^verbatim>\<open>[x]\<close> and a slice allocate a new object, \<^verbatim>\<open>append\<close>
  updates the object at the address. The arrays \<^verbatim>\<open>vectors\<close> and \<^verbatim>\<open>norms\<close> are only
  read; the list \<^verbatim>\<open>similarities\<close> lives within one iteration and is kept as a value.
\<close>

datatype obj = StrList "string list" | VecList "vec list"

type_synonym addr = nat

record store =
  heap :: "addr \<Rightarrow> obj option"
  fresh :: addr

record frame =
  sentences_ref :: addr
  vectors_ref :: addr
  paragraphs_ref :: addr
  current_para_ref :: addr
  prev_vectors_ref :: addr

text \<open>Reading the list at an address.\<close>

definition str_at :: "store \<Rightarrow> addr \<Rightarrow> string list" where
  "str_at s a = (case heap s a of Some (StrList xs) \<Rightarrow> xs | Some (VecList vs) \<Rightarrow> [] | None \<Rightarrow> [])"

definition vec_at :: "store \<Rightarrow> addr \<Rightarrow> vec list" where
  "vec_at s a = (case heap s a of Some (VecList vs) \<Rightarrow> vs | Some (StrList xs) \<Rightarrow> [] | None \<Rightarrow> [])"

text \<open>A new object: the next unused address.\<close>

definition alloc :: "obj \<Rightarrow> store \<Rightarrow> addr \<times> store" where
  "alloc ob s = (fresh s, \<lparr>heap = (heap s)(fresh s \<mapsto> ob), fresh = Suc (fresh s)\<rparr>)"

text \<open>\<^verbatim>\<open>xs.append(x)\<close> for the list object at address \<open>a\<close>.\<close>

definition append_str :: "addr \<Rightarrow> string \<Rightarrow> store \<Rightarrow> store" where
  "append_str a x s = s\<lparr>heap := (heap s)(a \<mapsto> StrList (str_at s a @ [x]))\<rparr>"

definition append_vec :: "addr \<Rightarrow> vec \<Rightarrow> store \<Rightarrow> store" where
  "append_vec a v s = s\<lparr>heap := (heap s)(a \<mapsto> VecList (vec_at s a @ [v]))\<rparr>"

text \<open>Lines 44 to 46: three new lists.\<close>

definition store_init :: "addr \<Rightarrow> addr \<Rightarrow> store \<Rightarrow> frame \<times> store" where
  "store_init a_s a_v s =
     (let (p, s1) = alloc (StrList []) s;
          (c, s2) = alloc (StrList [str_at s1 a_s ! 0]) s1;
          (w, s3) = alloc (VecList [vec_at s2 a_v ! 0]) s2
      in (\<lparr>sentences_ref = a_s, vectors_ref = a_v, paragraphs_ref = p,
            current_para_ref = c, prev_vectors_ref = w\<rparr>, s3))"

text \<open>
  Lines 54 to 78. A break appends to \<^verbatim>\<open>paragraphs\<close> in place and binds
  \<^verbatim>\<open>current_para\<close> and \<^verbatim>\<open>prev_vectors\<close> to new lists; otherwise both are appended to
  in place. Line 78 binds \<^verbatim>\<open>prev_vectors\<close> to a new list, the slice.
\<close>

definition store_body :: "config \<Rightarrow> real list \<Rightarrow> frame \<times> store \<Rightarrow> nat \<Rightarrow> frame \<times> store" where
  "store_body cfg norms fs i =
     (let fr = fst fs; s = snd fs;
          current_vec = vec_at s (vectors_ref fr) ! i;
          avg = avg_similarity cfg (vec_at s (prev_vectors_ref fr)) current_vec (norms ! i);
          (fr1, s1) =
            (if break_conditions cfg avg (length (str_at s (current_para_ref fr)))
             then
               let s1 = append_str (paragraphs_ref fr)
                          (py_join '' '' (str_at s (current_para_ref fr))) s;
                   (c, s2) = alloc (StrList [str_at s1 (sentences_ref fr) ! i]) s1;
                   (w, s3) = alloc (VecList [current_vec]) s2
               in (fr\<lparr>current_para_ref := c, prev_vectors_ref := w\<rparr>, s3)
             else
               let s1 = append_str (current_para_ref fr) (str_at s (sentences_ref fr) ! i) s;
                   s2 = append_vec (prev_vectors_ref fr) current_vec s1
               in (fr, s2));
          (w, s2) = alloc (VecList (last_slice (window_size cfg)
                                      (vec_at s1 (prev_vectors_ref fr1)))) s1
      in (fr1\<lparr>prev_vectors_ref := w\<rparr>, s2))"

definition store_loop :: "config \<Rightarrow> real list \<Rightarrow> frame \<times> store \<Rightarrow> nat \<Rightarrow> frame \<times> store" where
  "store_loop cfg norms fs n = foldl (store_body cfg norms) fs [1..<n]"

text \<open>Lines 80 and 81.\<close>

definition store_flush :: "frame \<times> store \<Rightarrow> store" where
  "store_flush fs =
     (if str_at (snd fs) (current_para_ref (fst fs)) \<noteq> []
      then append_str (paragraphs_ref (fst fs))
             (py_join '' '' (str_at (snd fs) (current_para_ref (fst fs)))) (snd fs)
      else snd fs)"

text \<open>
  Lines 29 to 81 on the store: \<open>a_s\<close> is the address of \<^verbatim>\<open>sentences\<close>, \<open>a_v\<close> that of
  the rows of \<^verbatim>\<open>vectors\<close>. The result is the list \<^verbatim>\<open>paragraphs\<close> and the store that
  the run leaves.
\<close>

definition segment_store ::
  "config \<Rightarrow> addr \<Rightarrow> addr \<Rightarrow> store \<Rightarrow> (error + string list) \<times> store" where
  "segment_store cfg a_s a_v s =
     (if str_at s a_s = [] then (Inr [], s)
      else if \<not> rectangular (vec_at s a_v) then (Inl ValueError, s)
      else
        let norms = map np_linalg_norm (vec_at s a_v);
            fs = store_loop cfg norms (store_init a_s a_v s) (length (str_at s a_s));
            s' = store_flush fs
        in (Inr (str_at s' (paragraphs_ref (fst fs))), s'))"

text \<open>
  The invariant of the loop on the store. The input objects lie below the address \<open>f0\<close>
  (the first one the run allocates), the three lists of the loop lie at or above it and
  at different addresses; the store agrees with the initial one below \<open>f0\<close>; and the
  three lists hold what the state of the loop without store holds.
\<close>

definition frame_ok :: "addr \<Rightarrow> frame \<Rightarrow> store \<Rightarrow> bool" where
  "frame_ok f0 fr s =
     (sentences_ref fr < f0 \<and> vectors_ref fr < f0 \<and>
      f0 \<le> paragraphs_ref fr \<and> f0 \<le> current_para_ref fr \<and> f0 \<le> prev_vectors_ref fr \<and>
      paragraphs_ref fr < fresh s \<and> current_para_ref fr < fresh s \<and>
      prev_vectors_ref fr < fresh s \<and>
      paragraphs_ref fr \<noteq> current_para_ref fr \<and> paragraphs_ref fr \<noteq> prev_vectors_ref fr \<and>
      current_para_ref fr \<noteq> prev_vectors_ref fr)"

definition same_below :: "addr \<Rightarrow> store \<Rightarrow> store \<Rightarrow> bool" where
  "same_below f0 s0 s = (\<forall>a<f0. heap s a = heap s0 a)"

definition models :: "frame \<Rightarrow> store \<Rightarrow> loop_state \<Rightarrow> bool" where
  "models fr s st =
     (str_at s (paragraphs_ref fr) = paragraphs st \<and>
      str_at s (current_para_ref fr) = current_para st \<and>
      vec_at s (prev_vectors_ref fr) = prev_vectors st)"

text \<open>Two stores that hold the same three sentences and vectors at different addresses.\<close>

definition example_store :: store where
  "example_store =
     \<lparr>heap = [0 \<mapsto> StrList [''A.'', ''B.'', ''C.''], 1 \<mapsto> VecList [[1, 0], [1, 0], [0, 1]]],
      fresh = 2\<rparr>"

definition other_store :: store where
  "other_store =
     \<lparr>heap = [3 \<mapsto> VecList [[1, 0], [1, 0], [0, 1]], 5 \<mapsto> StrList [''A.'', ''B.'', ''C.''],
              6 \<mapsto> StrList [''unrelated'']],
      fresh = 9\<rparr>"

section \<open>Properties of the loop\<close>

subsection \<open>Unfolding the loop\<close>

lemma run_loop_1: "run_loop cfg ss vs ns (Suc 0) = init_state ss vs"
  by (simp add: run_loop_def)

lemma run_loop_Suc:
  "1 \<le> n \<Longrightarrow> run_loop cfg ss vs ns (Suc n) = loop_body cfg ss vs ns (run_loop cfg ss vs ns n) n"
  by (simp add: run_loop_def)

lemma run_blocks_1: "run_blocks cfg ss vs ns (Suc 0) = ([], init_state ss vs)"
  by (simp add: run_blocks_def)

lemma run_blocks_Suc:
  "1 \<le> n \<Longrightarrow> run_blocks cfg ss vs ns (Suc n) = blocks_body cfg ss vs ns (run_blocks cfg ss vs ns n) n"
  by (simp add: run_blocks_def)

lemma loop_body_break:
  "breaks_at cfg vs ns st i \<Longrightarrow>
   loop_body cfg ss vs ns st i =
     \<lparr>paragraphs = paragraphs st @ [py_join '' '' (current_para st)],
      current_para = [ss ! i],
      prev_vectors = last_slice (window_size cfg) [vs ! i]\<rparr>"
  by (simp add: loop_body_def breaks_at_def Let_def)

lemma loop_body_keep:
  "\<not> breaks_at cfg vs ns st i \<Longrightarrow>
   loop_body cfg ss vs ns st i =
     \<lparr>paragraphs = paragraphs st,
      current_para = current_para st @ [ss ! i],
      prev_vectors = last_slice (window_size cfg) (prev_vectors st @ [vs ! i])\<rparr>"
  by (simp add: loop_body_def breaks_at_def Let_def)

lemma snd_run_blocks: "1 \<le> n \<Longrightarrow> snd (run_blocks cfg ss vs ns n) = run_loop cfg ss vs ns n"
proof (induction n rule: nat_induct_at_least)
  case base
  show ?case by (simp add: run_blocks_1 run_loop_1)
next
  case (Suc n)
  then show ?case by (simp add: run_blocks_Suc run_loop_Suc blocks_body_def Let_def)
qed





lemma blocks_body_break:
  "breaks_at cfg vs ns (snd bst) i \<Longrightarrow>
   blocks_body cfg ss vs ns bst i =
     (fst bst @ [current_para (snd bst)], loop_body cfg ss vs ns (snd bst) i)"
  by (simp add: blocks_body_def Let_def)

lemma blocks_body_keep:
  "\<not> breaks_at cfg vs ns (snd bst) i \<Longrightarrow>
   blocks_body cfg ss vs ns bst i = (fst bst, loop_body cfg ss vs ns (snd bst) i)"
  by (simp add: blocks_body_def Let_def)

lemma run_blocks_paragraphs:
  "1 \<le> n \<Longrightarrow>
   paragraphs (snd (run_blocks cfg ss vs ns n)) =
     map (py_join '' '') (fst (run_blocks cfg ss vs ns n))"
proof (induction n rule: nat_induct_at_least)
  case base
  show ?case by (simp add: run_blocks_1 init_state_def)
next
  case (Suc n)
  show ?case
  proof (cases "breaks_at cfg vs ns (snd (run_blocks cfg ss vs ns n)) n")
    case True
    with Suc show ?thesis
      by (simp add: run_blocks_Suc blocks_body_break loop_body_break)
  next
    case False
    with Suc show ?thesis
      by (simp add: run_blocks_Suc blocks_body_keep loop_body_keep)
  qed
qed

lemma run_blocks_cover:
  "1 \<le> n \<Longrightarrow> n \<le> length ss \<Longrightarrow>
   concat (fst (run_blocks cfg ss vs ns n)) @ current_para (snd (run_blocks cfg ss vs ns n))
     = take n ss"
proof (induction n rule: nat_induct_at_least)
  case base
  then have "take 1 ss = [ss ! 0]"
    by (cases ss) simp_all
  then show ?case by (simp add: run_blocks_1 init_state_def)
next
  case (Suc n)
  then have n: "n < length ss" and ih: "concat (fst (run_blocks cfg ss vs ns n)) @
      current_para (snd (run_blocks cfg ss vs ns n)) = take n ss"
    by simp_all
  from n have tk: "take (Suc n) ss = take n ss @ [ss ! n]"
    by (rule take_Suc_conv_app_nth)
  show ?case
  proof (cases "breaks_at cfg vs ns (snd (run_blocks cfg ss vs ns n)) n")
    case True
    with Suc.hyps ih tk show ?thesis
      by (simp add: run_blocks_Suc blocks_body_break loop_body_break)
  next
    case False
    with Suc.hyps ih tk show ?thesis
      by (simp add: run_blocks_Suc blocks_body_keep loop_body_keep flip: append_assoc)
  qed
qed

lemma run_blocks_nonempty:
  "1 \<le> n \<Longrightarrow>
   current_para (snd (run_blocks cfg ss vs ns n)) \<noteq> [] \<and>
   [] \<notin> set (fst (run_blocks cfg ss vs ns n))"
proof (induction n rule: nat_induct_at_least)
  case base
  show ?case by (simp add: run_blocks_1 init_state_def)
next
  case (Suc n)
  show ?case
  proof (cases "breaks_at cfg vs ns (snd (run_blocks cfg ss vs ns n)) n")
    case True
    with Suc show ?thesis
      by (auto simp add: run_blocks_Suc blocks_body_break loop_body_break)
  next
    case False
    with Suc show ?thesis
      by (simp add: run_blocks_Suc blocks_body_keep loop_body_keep)
  qed
qed

lemma breaks_at_full:
  "max_sentences cfg \<le> length (current_para st) \<Longrightarrow> breaks_at cfg vs ns st i"
  by (simp add: breaks_at_def break_conditions_def)

lemma run_blocks_bounded:
  "1 \<le> n \<Longrightarrow> 1 \<le> max_sentences cfg \<Longrightarrow>
   length (current_para (snd (run_blocks cfg ss vs ns n))) \<le> max_sentences cfg \<and>
   list_all (\<lambda>b. length b \<le> max_sentences cfg) (fst (run_blocks cfg ss vs ns n))"
proof (induction n rule: nat_induct_at_least)
  case base
  then show ?case by (simp add: run_blocks_1 init_state_def)
next
  case (Suc n)
  show ?case
  proof (cases "breaks_at cfg vs ns (snd (run_blocks cfg ss vs ns n)) n")
    case True
    with Suc show ?thesis
      by (simp add: run_blocks_Suc blocks_body_break loop_body_break)
  next
    case False
    then have "\<not> max_sentences cfg \<le> length (current_para (snd (run_blocks cfg ss vs ns n)))"
      using breaks_at_full by blast
    with False Suc show ?thesis
      by (simp add: run_blocks_Suc blocks_body_keep loop_body_keep)
  qed
qed


subsection \<open>From the loop to the result\<close>

lemma segment_blocks:
  "rectangular (map snd es) \<Longrightarrow>
   segment cfg es = Inr (map (py_join '' '') (sentence_blocks cfg es))"
proof (cases "es = []")
  case True
  then show ?thesis by (simp add: segment_def sentence_blocks_def)
next
  case False
  assume "rectangular (map snd es)"
  let ?n = "length (map fst es)"
  from False have n: "1 \<le> ?n" by (cases es) simp_all
  let ?rb = "run_blocks cfg (map fst es) (map snd es) (map np_linalg_norm (map snd es)) ?n"
  have "flush (snd ?rb) = map (py_join '' '') (flush_blocks ?rb)"
    using run_blocks_paragraphs [OF n, of cfg "map fst es" "map snd es" "map np_linalg_norm (map snd es)"]
    by (simp add: flush_def flush_blocks_def)
  with n False \<open>rectangular (map snd es)\<close> show ?thesis
    using snd_run_blocks [OF n, of cfg "map fst es" "map snd es" "map np_linalg_norm (map snd es)"]
    by (simp add: segment_def sentence_blocks_def Let_def)
qed

lemma concat_sentence_blocks: "concat (sentence_blocks cfg es) = map fst es"
proof (cases "es = []")
  case True
  then show ?thesis by (simp add: sentence_blocks_def)
next
  case False
  let ?n = "length (map fst es)"
  from False have n: "1 \<le> ?n" by (cases es) simp_all
  from False show ?thesis
    using run_blocks_cover [OF n order_refl, of cfg "map snd es" "map np_linalg_norm (map snd es)"]
    by (auto simp add: sentence_blocks_def flush_blocks_def Let_def)
qed

lemma sentence_blocks_nonempty: "[] \<notin> set (sentence_blocks cfg es)"
proof (cases "es = []")
  case True
  then show ?thesis by (simp add: sentence_blocks_def)
next
  case False
  let ?n = "length (map fst es)"
  from False have n: "1 \<le> ?n" by (cases es) simp_all
  from False show ?thesis
    using run_blocks_nonempty [OF n, of cfg "map fst es" "map snd es" "map np_linalg_norm (map snd es)"]
    by (auto simp add: sentence_blocks_def flush_blocks_def Let_def)
qed

lemma sentence_blocks_bounded:
  assumes "1 \<le> max_sentences cfg"
  shows "list_all (\<lambda>b. length b \<le> max_sentences cfg) (sentence_blocks cfg es)"
proof (cases "es = []")
  case True
  then show ?thesis by (simp add: sentence_blocks_def)
next
  case False
  let ?n = "length (map fst es)"
  from False have n: "1 \<le> ?n" by (cases es) simp_all
  from False show ?thesis
    using run_blocks_bounded [OF n assms, of "map fst es" "map snd es" "map np_linalg_norm (map snd es)"]
    by (simp add: sentence_blocks_def flush_blocks_def Let_def)
qed

lemma process_large_text_blocks:
  "rectangular (map snd es) \<Longrightarrow>
   process_large_text es =
     Inr (py_join [CHR 0x0A, CHR 0x0A] (map (py_join '' '') (sentence_blocks default_config es)))"
  by (simp add: process_large_text_def segment_blocks)

lemma singleton_blocks:
  "list_all (\<lambda>b. length b = Suc 0) bs \<Longrightarrow> bs = map (\<lambda>s. [s]) (concat bs)"
proof (induction bs)
  case Nil
  show ?case by simp
next
  case (Cons b bs)
  then obtain s where "b = [s]" by (cases b) auto
  with Cons show ?case by simp
qed

lemma run_blocks_texts_irrelevant:
  "1 \<le> n \<Longrightarrow>
   map length (fst (run_blocks cfg ss vs ns n)) = map length (fst (run_blocks cfg ss' vs ns n)) \<and>
   length (current_para (snd (run_blocks cfg ss vs ns n))) =
     length (current_para (snd (run_blocks cfg ss' vs ns n))) \<and>
   prev_vectors (snd (run_blocks cfg ss vs ns n)) = prev_vectors (snd (run_blocks cfg ss' vs ns n))"
proof (induction n rule: nat_induct_at_least)
  case base
  show ?case by (simp add: run_blocks_1 init_state_def)
next
  case (Suc n)
  let ?a = "run_blocks cfg ss vs ns n" and ?b = "run_blocks cfg ss' vs ns n"
  from Suc.IH have eq: "breaks_at cfg vs ns (snd ?a) n = breaks_at cfg vs ns (snd ?b) n"
    by (simp add: breaks_at_def)
  show ?case
  proof (cases "breaks_at cfg vs ns (snd ?a) n")
    case True
    with eq have "breaks_at cfg vs ns (snd ?b) n" by simp
    with True Suc show ?thesis
      by (simp add: run_blocks_Suc blocks_body_break loop_body_break)
  next
    case False
    with eq have "\<not> breaks_at cfg vs ns (snd ?b) n" by simp
    with False Suc show ?thesis
      by (simp add: run_blocks_Suc blocks_body_keep loop_body_keep)
  qed
qed

lemma sentence_blocks_texts_irrelevant:
  assumes "map snd es = map snd es'"
  shows "map length (sentence_blocks cfg es) = map length (sentence_blocks cfg es')"
proof (cases "es = []")
  case True
  with assms have "es' = []" by simp
  with True show ?thesis by simp
next
  case False
  with assms have ne: "es' \<noteq> []" by auto
  from assms have len: "length es = length es'"
    by (metis length_map)
  let ?n = "length es"
  from False have n: "1 \<le> ?n" by (cases es) simp_all
  let ?ns = "map np_linalg_norm (map snd es')"
  have "current_para (snd (run_blocks cfg (map fst es) (map snd es') ?ns ?n)) \<noteq> []"
       "current_para (snd (run_blocks cfg (map fst es') (map snd es') ?ns ?n)) \<noteq> []"
    using run_blocks_nonempty [OF n] by blast+
  with False ne assms len show ?thesis
    using run_blocks_texts_irrelevant [OF n, of cfg "map fst es" "map snd es'" ?ns "map fst es'"]
    by (simp add: sentence_blocks_def flush_blocks_def Let_def)
qed

subsection \<open>The window and the open paragraph as index ranges\<close>




subsection \<open>Vectors of norm zero\<close>










subsection \<open>The time-marker transform\<close>

lemma marker_at_iff:
  "marker_at digit s \<longleftrightarrow>
   (\<exists>d1 d2 d3 d4 rest. s = CHR ''['' # d1 # d2 # CHR '':'' # d3 # d4 # CHR '']'' # rest \<and>
      digit d1 \<and> digit d2 \<and> digit d3 \<and> digit d4)"
proof
  assume m: "marker_at digit s"
  then have "7 \<le> length s" by (simp add: marker_at_def)
  then obtain a b c d e f g rest where s: "s = a # b # c # d # e # f # g # rest"
    by (auto simp: numeral_eq_Suc Suc_le_length_iff)
  with m show "\<exists>d1 d2 d3 d4 rest. s = CHR ''['' # d1 # d2 # CHR '':'' # d3 # d4 # CHR '']'' # rest \<and>
      digit d1 \<and> digit d2 \<and> digit d3 \<and> digit d4"
    by (simp add: marker_at_def)
next
  assume "\<exists>d1 d2 d3 d4 rest. s = CHR ''['' # d1 # d2 # CHR '':'' # d3 # d4 # CHR '']'' # rest \<and>
      digit d1 \<and> digit d2 \<and> digit d3 \<and> digit d4"
  then show "marker_at digit s"
    by (auto simp: marker_at_def)
qed

lemma re_sub_markers_copy:
  "list_all (\<lambda>c. c \<noteq> CHR 0x0A) (take n (re_sub_markers digit s)) \<Longrightarrow>
   take n (re_sub_markers digit s) = take n s"
proof (induction digit s arbitrary: n rule: re_sub_markers.induct)
  case (1 digit)
  show ?case by simp
next
  case (2 digit c cs)
  show ?case
  proof (cases n)
    case 0
    then show ?thesis by simp
  next
    case (Suc j)
    show ?thesis
    proof (cases "marker_at digit (c # cs)")
      case True
      with "2.prems" Suc show ?thesis by simp
    next
      case False
      with "2.prems" Suc "2.IH"(2) [of j] show ?thesis by simp
    qed
  qed
qed

lemma no_new_marker_at_head:
  assumes "\<not> digit CHR 0x0A" and "marker_at digit (c # re_sub_markers digit cs)"
  shows "marker_at digit (c # cs)"
proof -
  from assms(2) obtain d1 d2 d3 d4 rest where
    out: "c # re_sub_markers digit cs =
      CHR ''['' # d1 # d2 # CHR '':'' # d3 # d4 # CHR '']'' # rest"
    and d: "digit d1" "digit d2" "digit d3" "digit d4"
    by (auto simp: marker_at_iff)
  from d assms(1) have nn: "d1 \<noteq> CHR 0x0A" "d2 \<noteq> CHR 0x0A" "d3 \<noteq> CHR 0x0A" "d4 \<noteq> CHR 0x0A"
    by auto
  from out have c: "c = CHR ''[''"
    and t: "re_sub_markers digit cs = d1 # d2 # CHR '':'' # d3 # d4 # CHR '']'' # rest"
    by simp_all
  from t nn have "list_all (\<lambda>c. c \<noteq> CHR 0x0A) (take 6 (re_sub_markers digit cs))"
    by simp
  then have "take 6 (re_sub_markers digit cs) = take 6 cs"
    by (rule re_sub_markers_copy)
  with t have "take 6 cs = [d1, d2, CHR '':'', d3, d4, CHR '']'']"
    by simp
  moreover have "take 6 cs @ drop 6 cs = cs"
    by simp
  ultimately have "d1 # d2 # CHR '':'' # d3 # d4 # CHR '']'' # drop 6 cs = cs"
    by simp
  with c have "c # cs = CHR ''['' # d1 # d2 # CHR '':'' # d3 # d4 # CHR '']'' # drop 6 cs"
    by simp
  with d show ?thesis
    unfolding marker_at_iff by blast
qed

lemma blank_lines_around_shift:
  assumes "blank_lines_around t j"
  shows "blank_lines_around (p @ t) (length p + j)"
proof -
  from assms have j: "2 \<le> j" by (simp add: blank_lines_around_def)
  then have "length p + j - 2 = length p + (j - 2)" by simp
  with assms j show ?thesis
    by (simp add: blank_lines_around_def add.assoc)
qed


lemma re_sub_markers_surrounded:
  "\<not> digit CHR ''['' \<Longrightarrow> \<not> digit CHR 0x0A \<Longrightarrow>
   marker_at digit (drop k (re_sub_markers digit s)) \<Longrightarrow>
   blank_lines_around (re_sub_markers digit s) k"
proof (induction digit s arbitrary: k rule: re_sub_markers.induct)
  case (1 digit)
  then show ?case by (simp add: marker_at_def)
next
  case (2 digit c cs)
  show ?case
  proof (cases "marker_at digit (c # cs)")
    case False
    then have out: "re_sub_markers digit (c # cs) = [c] @ re_sub_markers digit cs"
      by simp
    show ?thesis
    proof (cases k)
      case 0
      with "2.prems"(3) out have "marker_at digit (c # re_sub_markers digit cs)"
        by simp
      with "2.prems"(2) have "marker_at digit (c # cs)"
        by (rule no_new_marker_at_head)
      with False show ?thesis by simp
    next
      case (Suc j)
      with "2.prems"(3) out have "marker_at digit (drop j (re_sub_markers digit cs))"
        by simp
      with False "2.prems"(1,2) have "blank_lines_around (re_sub_markers digit cs) j"
        by (rule "2.IH"(2))
      then have "blank_lines_around ([c] @ re_sub_markers digit cs) (length [c] + j)"
        by (rule blank_lines_around_shift)
      with out Suc show ?thesis by simp
    qed
  next
    case True
    then obtain d1 d2 d3 d4 rest where
      s: "c # cs = CHR ''['' # d1 # d2 # CHR '':'' # d3 # d4 # CHR '']'' # rest"
      and d: "digit d1" "digit d2" "digit d3" "digit d4"
      by (auto simp: marker_at_iff)
    from d "2.prems"(1) have nb: "d1 \<noteq> CHR ''[''" "d2 \<noteq> CHR ''[''" "d3 \<noteq> CHR ''[''" "d4 \<noteq> CHR ''[''"
      by auto
    let ?p = "[CHR 0x0A, CHR 0x0A, CHR ''['', d1, d2, CHR '':'', d3, d4, CHR '']'',
               CHR 0x0A, CHR 0x0A]"
    from s have r: "drop 7 (c # cs) = rest" and t: "take 7 (c # cs) =
        [CHR ''['', d1, d2, CHR '':'', d3, d4, CHR '']'']"
      by simp_all
    from True r t have out: "re_sub_markers digit (c # cs) = ?p @ re_sub_markers digit rest"
      by (simp del: drop_Suc_Cons take_Suc_Cons)
    show ?thesis
    proof (cases "k < 11")
      case False
      then have k: "k = 11 + (k - 11)" by simp
      have lp: "length ?p = 11" by simp
      with False have "drop k ?p = []" by (simp only: drop_all not_less)
      then have "drop k (?p @ re_sub_markers digit rest) =
          drop (k - 11) (re_sub_markers digit rest)"
        by (simp only: drop_append lp append_Nil)
      with "2.prems"(3) [unfolded out]
      have "marker_at digit (drop (k - 11) (re_sub_markers digit rest))"
        by (simp only:)
      with True "2.prems"(1,2) r have "blank_lines_around (re_sub_markers digit rest) (k - 11)"
        using "2.IH"(1) by simp
      then have "blank_lines_around (?p @ re_sub_markers digit rest) (length ?p + (k - 11))"
        by (rule blank_lines_around_shift)
      then have "blank_lines_around (?p @ re_sub_markers digit rest) (11 + (k - 11))"
        by (simp only: lp)
      with k show ?thesis unfolding out by (simp only:)
    next
      case True
      then have "k = 0 \<or> k = 1 \<or> k = 2 \<or> k = 3 \<or> k = 4 \<or> k = 5 \<or> k = 6 \<or> k = 7 \<or>
          k = 8 \<or> k = 9 \<or> k = 10"
        by arith
      then consider "k = 0" | "k = 1" | "k = 2" | "k = 3" | "k = 4" | "k = 5" | "k = 6"
        | "k = 7" | "k = 8" | "k = 9" | "k = 10"
        by blast
      then show ?thesis
      proof cases
        case 3
        then show ?thesis unfolding out by (simp add: blank_lines_around_def)
      qed (use "2.prems"(3) [unfolded out] nb in \<open>simp_all add: marker_at_def\<close>)
    qed
  qed
qed

subsection \<open>The loop over the store computes the same result\<close>

lemma same_below_str_at: "same_below f0 s0 s \<Longrightarrow> a < f0 \<Longrightarrow> str_at s a = str_at s0 a"
  by (simp add: same_below_def str_at_def)

lemma same_below_vec_at: "same_below f0 s0 s \<Longrightarrow> a < f0 \<Longrightarrow> vec_at s a = vec_at s0 a"
  by (simp add: same_below_def vec_at_def)

lemma store_body_refines:
  assumes ok: "frame_ok f0 fr s" and sb: "same_below f0 s0 s" and m: "models fr s st"
    and ss: "str_at s0 (sentences_ref fr) = ss" and vs: "vec_at s0 (vectors_ref fr) = vs"
  shows "frame_ok f0 (fst (store_body cfg ns (fr, s) i)) (snd (store_body cfg ns (fr, s) i)) \<and>
         same_below f0 s0 (snd (store_body cfg ns (fr, s) i)) \<and>
         models (fst (store_body cfg ns (fr, s) i)) (snd (store_body cfg ns (fr, s) i))
           (loop_body cfg ss vs ns st i) \<and>
         sentences_ref (fst (store_body cfg ns (fr, s) i)) = sentences_ref fr \<and>
         vectors_ref (fst (store_body cfg ns (fr, s) i)) = vectors_ref fr"
proof -
  from ok have lt: "sentences_ref fr < f0" "vectors_ref fr < f0"
    by (simp_all add: frame_ok_def)
  from sb lt ss vs have rd: "str_at s (sentences_ref fr) = ss" "vec_at s (vectors_ref fr) = vs"
    by (simp_all add: same_below_str_at same_below_vec_at)
  from ok lt have ne: "sentences_ref fr \<noteq> paragraphs_ref fr"
      "sentences_ref fr \<noteq> current_para_ref fr" "vectors_ref fr \<noteq> prev_vectors_ref fr"
    by (auto simp: frame_ok_def)
  let ?b = "break_conditions cfg
      (avg_similarity cfg (prev_vectors st) (vs ! i) (ns ! i)) (length (current_para st))"
  show ?thesis
  proof (cases ?b)
    case True
    with ok sb m rd ne show ?thesis
      by (auto simp: store_body_def loop_body_def Let_def alloc_def append_str_def
          frame_ok_def same_below_def models_def str_at_def vec_at_def)
  next
    case False
    with ok sb m rd ne show ?thesis
      by (auto simp: store_body_def loop_body_def Let_def alloc_def append_str_def
          append_vec_def frame_ok_def same_below_def models_def str_at_def vec_at_def)
  qed
qed


lemma store_loop_1: "store_loop cfg ns fs (Suc 0) = fs"
  by (simp add: store_loop_def)

lemma store_loop_Suc:
  "1 \<le> n \<Longrightarrow> store_loop cfg ns fs (Suc n) = store_body cfg ns (store_loop cfg ns fs n) n"
  by (simp add: store_loop_def)

lemma store_init_refines:
  assumes "a_s < fresh s0" and "a_v < fresh s0"
  shows "frame_ok (fresh s0) (fst (store_init a_s a_v s0)) (snd (store_init a_s a_v s0)) \<and>
         same_below (fresh s0) s0 (snd (store_init a_s a_v s0)) \<and>
         models (fst (store_init a_s a_v s0)) (snd (store_init a_s a_v s0))
           (init_state (str_at s0 a_s) (vec_at s0 a_v)) \<and>
         sentences_ref (fst (store_init a_s a_v s0)) = a_s \<and>
         vectors_ref (fst (store_init a_s a_v s0)) = a_v"
  using assms
  by (auto simp: store_init_def init_state_def Let_def alloc_def frame_ok_def same_below_def
      models_def str_at_def vec_at_def)

lemma store_loop_refines:
  assumes "1 \<le> n"
    and "frame_ok f0 fr s" and "same_below f0 s0 s" and "models fr s (init_state ss vs)"
    and "str_at s0 (sentences_ref fr) = ss" and "vec_at s0 (vectors_ref fr) = vs"
  shows "frame_ok f0 (fst (store_loop cfg ns (fr, s) n)) (snd (store_loop cfg ns (fr, s) n)) \<and>
         same_below f0 s0 (snd (store_loop cfg ns (fr, s) n)) \<and>
         models (fst (store_loop cfg ns (fr, s) n)) (snd (store_loop cfg ns (fr, s) n))
           (run_loop cfg ss vs ns n) \<and>
         sentences_ref (fst (store_loop cfg ns (fr, s) n)) = sentences_ref fr \<and>
         vectors_ref (fst (store_loop cfg ns (fr, s) n)) = vectors_ref fr"
  using assms(1)
proof (induction n rule: nat_induct_at_least)
  case base
  from assms(2-4) show ?case
    by (simp add: store_loop_1 run_loop_1)
next
  case (Suc n)
  let ?L = "store_loop cfg ns (fr, s) n"
  from Suc.IH have ok: "frame_ok f0 (fst ?L) (snd ?L)" and sb: "same_below f0 s0 (snd ?L)"
    and m: "models (fst ?L) (snd ?L) (run_loop cfg ss vs ns n)"
    and r: "sentences_ref (fst ?L) = sentences_ref fr" "vectors_ref (fst ?L) = vectors_ref fr"
    by simp_all
  from r assms(5,6) have rd: "str_at s0 (sentences_ref (fst ?L)) = ss"
      "vec_at s0 (vectors_ref (fst ?L)) = vs"
    by simp_all
  from store_body_refines [OF ok sb m rd, of cfg ns n] Suc.hyps r show ?case
    by (simp add: store_loop_Suc run_loop_Suc)
qed

lemma store_flush_refines:
  assumes "frame_ok f0 fr s" and "same_below f0 s0 s" and "models fr s st"
  shows "str_at (store_flush (fr, s)) (paragraphs_ref fr) = flush st \<and>
         same_below f0 s0 (store_flush (fr, s))"
  using assms
  by (auto simp: store_flush_def flush_def append_str_def frame_ok_def same_below_def
      models_def str_at_def)

lemma segment_store_refines:
  assumes "heap s0 a_s = Some (StrList (map fst es))"
    and "heap s0 a_v = Some (VecList (map snd es))"
    and "a_s < fresh s0" and "a_v < fresh s0"
  shows "fst (segment_store cfg a_s a_v s0) = segment cfg es \<and>
         heap (snd (segment_store cfg a_s a_v s0)) a_s = Some (StrList (map fst es)) \<and>
         heap (snd (segment_store cfg a_s a_v s0)) a_v = Some (VecList (map snd es)) \<and>
         same_below (fresh s0) s0 (snd (segment_store cfg a_s a_v s0)) \<and>
         fresh s0 \<le> fresh (snd (segment_store cfg a_s a_v s0))"
proof -
  from assms(1,2) have rd: "str_at s0 a_s = map fst es" "vec_at s0 a_v = map snd es"
    by (simp_all add: str_at_def vec_at_def)
  have sb0: "same_below (fresh s0) s0 s0" by (simp add: same_below_def)
  show ?thesis
  proof (cases "es = [] \<or> \<not> rectangular (map snd es)")
    case True
    with rd assms sb0 show ?thesis
      by (auto simp: segment_store_def segment_def)
  next
    case False
    then have ne: "es \<noteq> []" and rect: "rectangular (map snd es)" by simp_all
    let ?n = "length (map fst es)"
    let ?ns = "map np_linalg_norm (map snd es)"
    let ?i = "store_init a_s a_v s0"
    let ?L = "store_loop cfg ?ns ?i ?n"
    from ne have n: "1 \<le> ?n" by (cases es) simp_all
    from store_init_refines [OF assms(3,4)] rd
    have i: "frame_ok (fresh s0) (fst ?i) (snd ?i)" "same_below (fresh s0) s0 (snd ?i)"
        "models (fst ?i) (snd ?i) (init_state (map fst es) (map snd es))"
        "str_at s0 (sentences_ref (fst ?i)) = map fst es"
        "vec_at s0 (vectors_ref (fst ?i)) = map snd es"
      by simp_all
    from store_loop_refines [OF n i, of cfg ?ns]
    have l: "frame_ok (fresh s0) (fst ?L) (snd ?L)" "same_below (fresh s0) s0 (snd ?L)"
        "models (fst ?L) (snd ?L) (run_loop cfg (map fst es) (map snd es) ?ns ?n)"
      by simp_all
    from store_flush_refines [OF l]
    have f: "str_at (store_flush ?L) (paragraphs_ref (fst ?L)) =
        flush (run_loop cfg (map fst es) (map snd es) ?ns ?n)"
      "same_below (fresh s0) s0 (store_flush ?L)"
      by simp_all
    from ne rect rd f(1) have res: "fst (segment_store cfg a_s a_v s0) = segment cfg es"
      by (simp add: segment_store_def segment_def Let_def)
    from ne rect rd have snd: "snd (segment_store cfg a_s a_v s0) = store_flush ?L"
      by (simp add: segment_store_def Let_def)
    with f(2) have sb: "same_below (fresh s0) s0 (snd (segment_store cfg a_s a_v s0))"
      by simp
    from l(1) have "fresh s0 \<le> fresh (store_flush ?L)"
      by (simp add: frame_ok_def store_flush_def append_str_def)
    with snd have "fresh s0 \<le> fresh (snd (segment_store cfg a_s a_v s0))"
      by simp
    with assms res sb show ?thesis
      by (simp add: same_below_def)
  qed
qed



subsection \<open>Evaluating the model on concrete inputs\<close>

lemmas eval_segment =
  segment_def rectangular_def run_loop_def loop_body_def init_state_def flush_def
  avg_similarity_def similarities_def cosine_similarity_def np_divide_def np_dot_def
  np_linalg_norm_def np_mean_def last_slice_def break_conditions_def default_config_def
  Let_def upt_conv_Cons

lemmas eval_blocks =
  sentence_blocks_def run_blocks_def blocks_body_def breaks_at_def flush_blocks_def
  loop_body_def init_state_def avg_similarity_def similarities_def cosine_similarity_def
  np_divide_def np_dot_def np_linalg_norm_def np_mean_def last_slice_def
  break_conditions_def default_config_def Let_def upt_conv_Cons

lemma default_config_fields:
  "threshold default_config = 65 / 100"
  "max_sentences default_config = 4"
  "window_size default_config = 2"
  by (simp_all add: default_config_def)

lemmas eval_body =
  loop_body_def avg_similarity_def similarities_def np_mean_def last_slice_def
  break_conditions_def default_config_fields Let_def


lemma aboutE:
  assumes "about tol c x"
  obtains r where "x = Fin r" and "\<bar>r - c\<bar> \<le> tol"
  using assms by (cases x) (simp_all add: about_def)

lemma sqrt_32761: "sqrt 32761 = 181"
  by (rule real_sqrt_unique) simp_all

section \<open>The claims\<close>

text \<open>
  C1. For a non-empty list of sentences (with vectors that form a rectangular array, so
  that the code reaches the loop), the result is a partition of the sentences into
  contiguous blocks in order: the paragraphs are the blocks joined by single spaces, the
  blocks concatenated give back the sentence list (every sentence in exactly one block,
  no gap, no overlap, the order kept), and no block is empty. The code's own result is
  these paragraphs joined by blank lines.
\<close>

theorem segment_partition:
  assumes "es \<noteq> []" and "rectangular (map snd es)"
  shows "segment cfg es = Inr (map (py_join '' '') (sentence_blocks cfg es)) \<and>
         concat (sentence_blocks cfg es) = map fst es \<and>
         [] \<notin> set (sentence_blocks cfg es) \<and>
         process_large_text es =
           Inr (py_join ''\<newline>\<newline>''
                  (map (py_join '' '') (sentence_blocks default_config es)))"
  using assms
  by (simp add: segment_blocks concat_sentence_blocks sentence_blocks_nonempty
      process_large_text_blocks)

theorem segment_partition_witness:
  "[(''A.'', [1, 0]), (''B.'', [1, 0]), (''C.'', [0, 1])] \<noteq> [] \<and>
   rectangular (map snd [(''A.'', [1, 0]), (''B.'', [1, 0]), (''C.'', [0, 1])]) \<and>
   sentence_blocks default_config [(''A.'', [1, 0]), (''B.'', [1, 0]), (''C.'', [0, 1])]
     = [[''A.'', ''B.''], [''C.'']] \<and>
   segment default_config [(''A.'', [1, 0]), (''B.'', [1, 0]), (''C.'', [0, 1])]
     = Inr [''A. B.'', ''C.''] \<and>
   process_large_text [(''A.'', [1, 0]), (''B.'', [1, 0]), (''C.'', [0, 1])]
     = Inr ''A. B.\<newline>\<newline>C.''"
proof -
  let ?es = "[(''A.'', [1, 0]), (''B.'', [1, 0]), (''C.'', [0, 1::real])]"
  have ne: "?es \<noteq> []" by simp
  have rect: "rectangular (map snd ?es)" by (simp add: rectangular_def)
  have blocks: "sentence_blocks default_config ?es = [[''A.'', ''B.''], [''C.'']]"
    by (simp add: eval_blocks)
  from segment_partition [OF ne rect, of default_config] ne rect blocks
  show ?thesis by simp
qed

text \<open>
  C2. Every paragraph holds at least one and at most \<open>max_sentences\<close> sentences (four
  in the code), for every limit of at least one.
\<close>

theorem paragraph_sizes:
  assumes "1 \<le> max_sentences cfg" and "rectangular (map snd es)"
  shows "segment cfg es = Inr (map (py_join '' '') (sentence_blocks cfg es)) \<and>
         list_all (\<lambda>b. 1 \<le> length b \<and> length b \<le> max_sentences cfg)
           (sentence_blocks cfg es)"
proof -
  have "list_all (\<lambda>b. 1 \<le> length b) (sentence_blocks cfg es)"
    using sentence_blocks_nonempty [of cfg es]
    by (induction "sentence_blocks cfg es") (auto simp: list_all_iff Suc_le_eq)
  with sentence_blocks_bounded [OF assms(1), of es] segment_blocks [OF assms(2), of cfg]
  show ?thesis by (simp add: list_all_iff)
qed

theorem paragraph_sizes_witness:
  "1 \<le> max_sentences default_config \<and>
   rectangular (map snd [(''A.'', [1]), (''B.'', [1]), (''C.'', [1]), (''D.'', [1]),
                         (''E.'', [1]), (''F.'', [-1])]) \<and>
   sentence_blocks default_config
     [(''A.'', [1]), (''B.'', [1]), (''C.'', [1]), (''D.'', [1]), (''E.'', [1]), (''F.'', [-1])]
     = [[''A.'', ''B.'', ''C.'', ''D.''], [''E.''], [''F.'']] \<and>
   segment default_config
     [(''A.'', [1]), (''B.'', [1]), (''C.'', [1]), (''D.'', [1]), (''E.'', [1]), (''F.'', [-1])]
     = Inr [''A. B. C. D.'', ''E.'', ''F.'']"
proof -
  let ?es = "[(''A.'', [1]), (''B.'', [1]), (''C.'', [1]), (''D.'', [1]), (''E.'', [1]),
              (''F.'', [-1::real])]"
  have m: "1 \<le> max_sentences default_config" by (simp add: default_config_def)
  have rect: "rectangular (map snd ?es)" by (simp add: rectangular_def)
  have blocks: "sentence_blocks default_config ?es
      = [[''A.'', ''B.'', ''C.'', ''D.''], [''E.''], [''F.'']]"
    by (simp add: eval_blocks)
  from paragraph_sizes [OF m rect] m rect blocks
  show ?thesis by simp
qed

text \<open>
  C7. With no sentence the result is empty (no paragraph, the empty text) and nothing
  fails; with one sentence the result is the one paragraph that is this sentence.
\<close>

theorem empty_and_single_input:
  "segment cfg [] = Inr [] \<and> process_large_text [] = Inr [] \<and>
   segment cfg [(s, v)] = Inr [s] \<and> process_large_text [(s, v)] = Inr s"
  by (simp add: process_large_text_def segment_def rectangular_def run_loop_def
      init_state_def flush_def)

text \<open>
  C8. With \<open>max_sentences = 1\<close> every sentence is a paragraph of its own, whatever the
  vectors, the threshold and the window size are: \<open>N\<close> sentences give \<open>N\<close> paragraphs.
\<close>

theorem max_sentences_one:
  assumes "max_sentences cfg = 1" and "rectangular (map snd es)"
  shows "segment cfg es = Inr (map fst es) \<and>
         sentence_blocks cfg es = map (\<lambda>s. [s]) (map fst es) \<and>
         length (sentence_blocks cfg es) = length es"
proof -
  from assms(1) have "1 \<le> max_sentences cfg" by simp
  from sentence_blocks_bounded [OF this, of es] sentence_blocks_nonempty [of cfg es] assms(1)
  have "list_all (\<lambda>b. length b = Suc 0) (sentence_blocks cfg es)"
    by (induction "sentence_blocks cfg es") (auto simp: list_all_iff le_Suc_eq)
  from singleton_blocks [OF this]
  have blocks: "sentence_blocks cfg es = map (\<lambda>s. [s]) (map fst es)"
    by (simp add: concat_sentence_blocks)
  with segment_blocks [OF assms(2), of cfg] show ?thesis
    by (simp add: comp_def)
qed

theorem max_sentences_one_witness:
  "max_sentences \<lparr>threshold = 65 / 100, max_sentences = 1, window_size = 2\<rparr> = 1 \<and>
   rectangular (map snd [(''A.'', [1, 0]), (''B.'', [1, 0]), (''C.'', [1, 0])]) \<and>
   segment \<lparr>threshold = 65 / 100, max_sentences = 1, window_size = 2\<rparr>
     [(''A.'', [1, 0]), (''B.'', [1, 0]), (''C.'', [1, 0])] = Inr [''A.'', ''B.'', ''C.'']"
proof -
  let ?cfg = "\<lparr>threshold = 65 / 100, max_sentences = 1, window_size = 2\<rparr>"
  let ?es = "[(''A.'', [1, 0]), (''B.'', [1, 0]), (''C.'', [1, 0::real])]"
  have m: "max_sentences ?cfg = 1" by simp
  have rect: "rectangular (map snd ?es)" by (simp add: rectangular_def)
  from max_sentences_one [OF m rect] m rect show ?thesis by simp
qed

text \<open>
  C10. The places of the breaks depend on the vectors only: two inputs with the same
  vectors and any sentence texts are cut into blocks of the same lengths, block by block,
  hence at the same sentence indices.
\<close>

theorem breaks_depend_on_vectors_only:
  assumes "map snd es = map snd es'" and "rectangular (map snd es)"
  shows "segment cfg es = Inr (map (py_join '' '') (sentence_blocks cfg es)) \<and>
         segment cfg es' = Inr (map (py_join '' '') (sentence_blocks cfg es')) \<and>
         map length (sentence_blocks cfg es) = map length (sentence_blocks cfg es')"
proof -
  from assms have "rectangular (map snd es')" by simp
  with assms show ?thesis
    by (simp add: segment_blocks sentence_blocks_texts_irrelevant [OF assms(1)])
qed

theorem breaks_depend_on_vectors_only_witness:
  "map snd [(''A.'', [1, 0]), (''B.'', [1, 0]), (''C.'', [0, 1])] =
     map snd [(''One two.'', [1, 0]), (''Three.'', [1, 0]), ('''', [0, 1::real])] \<and>
   rectangular (map snd [(''A.'', [1, 0]), (''B.'', [1, 0]), (''C.'', [0, 1])]) \<and>
   sentence_blocks default_config [(''A.'', [1, 0]), (''B.'', [1, 0]), (''C.'', [0, 1])]
     = [[''A.'', ''B.''], [''C.'']] \<and>
   sentence_blocks default_config
       [(''One two.'', [1, 0]), (''Three.'', [1, 0]), ('''', [0, 1])]
     = [[''One two.'', ''Three.''], ['''']]"
proof -
  let ?es = "[(''A.'', [1, 0]), (''B.'', [1, 0]), (''C.'', [0, 1::real])]"
  let ?es' = "[(''One two.'', [1, 0]), (''Three.'', [1, 0]), ('''', [0, 1::real])]"
  have v: "map snd ?es = map snd ?es'" by simp
  have rect: "rectangular (map snd ?es)" by (simp add: rectangular_def)
  have b: "sentence_blocks default_config ?es = [[''A.'', ''B.''], [''C.'']]"
    by (simp add: eval_blocks)
  have b': "sentence_blocks default_config ?es' = [[''One two.'', ''Three.''], ['''']]"
    by (simp add: eval_blocks)
  from breaks_depend_on_vectors_only [OF v rect, of default_config] rect b b'
  show ?thesis by simp
qed



text \<open>
  C4. The worked example. Five sentences whose vectors form a rectangular array, with
  similarities of about 0.99 among A, B and C and between D and E, and of about 0.1
  between each of A, B, C and each of D, E (every one within a tolerance of at most a
  quarter): the code returns the two paragraphs \<^verbatim>\<open>A. B. C.\<close> and \<^verbatim>\<open>D. E.\<close>,
  separated by a blank line.
\<close>

theorem worked_example:
  assumes tol: "tol \<le> 1 / 4"
    and rect: "rectangular [a, b, c, d, e]"
    and ab: "about tol (99 / 100) (cosine a b)"
    and ac: "about tol (99 / 100) (cosine a c)"
    and bc: "about tol (99 / 100) (cosine b c)"
    and de: "about tol (99 / 100) (cosine d e)"
    and ad: "about tol (1 / 10) (cosine a d)"
    and bd: "about tol (1 / 10) (cosine b d)"
    and cd: "about tol (1 / 10) (cosine c d)"
    and ae: "about tol (1 / 10) (cosine a e)"
    and be: "about tol (1 / 10) (cosine b e)"
    and ce: "about tol (1 / 10) (cosine c e)"
  shows "segment default_config
           [(''A.'', a), (''B.'', b), (''C.'', c), (''D.'', d), (''E.'', e)]
           = Inr [''A. B. C.'', ''D. E.''] \<and>
         process_large_text [(''A.'', a), (''B.'', b), (''C.'', c), (''D.'', d), (''E.'', e)]
           = Inr ''A. B. C.\<newline>\<newline>D. E.''"
proof -
  from ab obtain r1 where r1: "cosine_similarity a b (np_linalg_norm b) = Fin r1"
      "\<bar>r1 - 99 / 100\<bar> \<le> tol"
    by (auto elim: aboutE simp: cosine_def)
  from ac obtain r2 where r2: "cosine_similarity a c (np_linalg_norm c) = Fin r2"
      "\<bar>r2 - 99 / 100\<bar> \<le> tol"
    by (auto elim: aboutE simp: cosine_def)
  from bc obtain r3 where r3: "cosine_similarity b c (np_linalg_norm c) = Fin r3"
      "\<bar>r3 - 99 / 100\<bar> \<le> tol"
    by (auto elim: aboutE simp: cosine_def)
  from bd obtain r4 where r4: "cosine_similarity b d (np_linalg_norm d) = Fin r4"
      "\<bar>r4 - 1 / 10\<bar> \<le> tol"
    by (auto elim: aboutE simp: cosine_def)
  from cd obtain r5 where r5: "cosine_similarity c d (np_linalg_norm d) = Fin r5"
      "\<bar>r5 - 1 / 10\<bar> \<le> tol"
    by (auto elim: aboutE simp: cosine_def)
  from de obtain r6 where r6: "cosine_similarity d e (np_linalg_norm e) = Fin r6"
      "\<bar>r6 - 99 / 100\<bar> \<le> tol"
    by (auto elim: aboutE simp: cosine_def)
  from tol r1(2) have c1: "\<not> r1 < 65 / 100" by arith
  from tol r2(2) r3(2) have "74 / 100 \<le> r2" "74 / 100 \<le> r3" by arith+
  then have c2: "\<not> (r2 + r3) / 2 < 65 / 100" by simp
  from tol r4(2) r5(2) have "r4 \<le> 35 / 100" "r5 \<le> 35 / 100" by arith+
  then have c3: "(r4 + r5) / 2 < 65 / 100" by simp
  from tol r6(2) have c4: "\<not> r6 < 65 / 100" by arith
  let ?ss = "[''A.'', ''B.'', ''C.'', ''D.'', ''E.'']" and ?vs = "[a, b, c, d, e]"
  let ?ns = "[np_linalg_norm a, np_linalg_norm b, np_linalg_norm c, np_linalg_norm d,
              np_linalg_norm e]"
  let ?run = "run_loop default_config ?ss ?vs ?ns"
  have s1: "?run (Suc 0) =
      \<lparr>paragraphs = [], current_para = [''A.''], prev_vectors = [a]\<rparr>"
    by (simp add: run_loop_1 init_state_def)
  from c1 have s2: "?run (Suc (Suc 0)) =
      \<lparr>paragraphs = [], current_para = [''A.'', ''B.''], prev_vectors = [a, b]\<rparr>"
    by (simp add: run_loop_Suc s1 eval_body r1(1))
  from c2 have s3: "?run (Suc (Suc (Suc 0))) =
      \<lparr>paragraphs = [], current_para = [''A.'', ''B.'', ''C.''], prev_vectors = [b, c]\<rparr>"
    by (simp add: run_loop_Suc s2 eval_body r2(1) r3(1))
  from c3 have s4: "?run (Suc (Suc (Suc (Suc 0)))) =
      \<lparr>paragraphs = [''A. B. C.''], current_para = [''D.''], prev_vectors = [d]\<rparr>"
    by (simp add: run_loop_Suc s3 eval_body r4(1) r5(1))
  from c4 have s5: "?run (Suc (Suc (Suc (Suc (Suc 0))))) =
      \<lparr>paragraphs = [''A. B. C.''], current_para = [''D.'', ''E.''], prev_vectors = [d, e]\<rparr>"
    by (simp add: run_loop_Suc s4 eval_body r6(1))
  from rect s5 show ?thesis
    by (simp add: process_large_text_def segment_def flush_def)
qed

theorem worked_example_witness:
  "(1 / 100 :: real) \<le> 1 / 4 \<and>
   rectangular [[1, 0], [1, 0], [1, 0], [19, 180], [19, 180]] \<and>
   about (1 / 100) (99 / 100) (cosine [1, 0] [1, 0]) \<and>
   about (1 / 100) (99 / 100) (cosine [19, 180] [19, 180]) \<and>
   about (1 / 100) (1 / 10) (cosine [1, 0] [19, 180]) \<and>
   cosine [1, 0] [19, 180] = Fin (19 / 181) \<and>
   process_large_text
     [(''A.'', [1, 0]), (''B.'', [1, 0]), (''C.'', [1, 0]), (''D.'', [19, 180]),
      (''E.'', [19, 180])]
     = Inr ''A. B. C.\<newline>\<newline>D. E.''"
proof -
  let ?a = "[1, 0::real]" and ?d = "[19, 180::real]"
  have tol: "(1 / 100 :: real) \<le> 1 / 4" by simp
  have rect: "rectangular [?a, ?a, ?a, ?d, ?d]" by (simp add: rectangular_def)
  have caa: "cosine ?a ?a = Fin 1"
    by (simp add: cosine_def cosine_similarity_def np_divide_def np_dot_def np_linalg_norm_def)
  have cdd: "cosine ?d ?d = Fin 1"
    by (simp add: cosine_def cosine_similarity_def np_divide_def np_dot_def np_linalg_norm_def
        sqrt_32761)
  have cad: "cosine ?a ?d = Fin (19 / 181)"
    by (simp add: cosine_def cosine_similarity_def np_divide_def np_dot_def np_linalg_norm_def
        sqrt_32761)
  have near: "about (1 / 100) (99 / 100) (cosine ?a ?a)"
      "about (1 / 100) (99 / 100) (cosine ?d ?d)"
    by (simp_all add: caa cdd about_def)
  have far: "about (1 / 100) (1 / 10) (cosine ?a ?d)"
    by (simp add: cad about_def)
  from worked_example [OF tol rect near(1) near(1) near(1) near(2) far far far far far far]
    tol rect near far cad
  show ?thesis by simp
qed




text \<open>
  C9. In the text that the transform returns, every place where the marker pattern
  matches has two newlines right before it and two right behind it, that is a blank line
  on either side. This holds for every input text, so also for the joined paragraphs,
  and for every class of digits that contains neither the opening bracket nor the
  newline (as the class \<^verbatim>\<open>\d\<close> of the code does).
\<close>

theorem markers_between_blank_lines:
  assumes "\<not> digit CHR ''[''" and "\<not> digit CHR 0x0A"
    and "marker_at digit (drop k (re_sub_markers digit processed))"
  shows "blank_lines_around (re_sub_markers digit processed) k"
  using assms by (rule re_sub_markers_surrounded)

theorem markers_between_blank_lines_witness:
  "\<not> ascii_digit CHR ''['' \<and> \<not> ascii_digit CHR 0x0A \<and>
   re_sub_markers ascii_digit ''Intro. [00:05] Next.''
     = ''Intro. \<newline>\<newline>[00:05]\<newline>\<newline> Next.'' \<and>
   marker_at ascii_digit (drop 9 (re_sub_markers ascii_digit ''Intro. [00:05] Next.'')) \<and>
   blank_lines_around (re_sub_markers ascii_digit ''Intro. [00:05] Next.'') 9"
proof -
  have d: "\<not> ascii_digit CHR ''[''" "\<not> ascii_digit CHR 0x0A"
    by (simp_all add: ascii_digit_def)
  have out: "re_sub_markers ascii_digit ''Intro. [00:05] Next.''
      = ''Intro. \<newline>\<newline>[00:05]\<newline>\<newline> Next.''"
    by (simp add: marker_at_def ascii_digit_def)
  have m: "marker_at ascii_digit (drop 9 (re_sub_markers ascii_digit ''Intro. [00:05] Next.''))"
    by (simp add: out marker_at_def ascii_digit_def)
  from markers_between_blank_lines [OF d m] d out m show ?thesis
    by simp
qed

text \<open>
  C6. The run over the store, started with the sentences and the vectors at any two
  allocated addresses of any store, returns what the function \<open>segment\<close> gives for
  these sentences and vectors: the result depends on nothing else. So a run on another
  store that holds the same input returns the same paragraphs, and so does a second run
  on the store that the first one leaves. The run changes no object that existed before
  it: the sentence list and the vectors are as they were.
\<close>

theorem segment_deterministic_without_mutation:
  assumes "heap s0 a_s = Some (StrList (map fst es))"
    and "heap s0 a_v = Some (VecList (map snd es))"
    and "a_s < fresh s0" and "a_v < fresh s0"
    and "heap s1 b_s = Some (StrList (map fst es))"
    and "heap s1 b_v = Some (VecList (map snd es))"
    and "b_s < fresh s1" and "b_v < fresh s1"
  shows "fst (segment_store cfg a_s a_v s0) = segment cfg es \<and>
         fst (segment_store cfg b_s b_v s1) = fst (segment_store cfg a_s a_v s0) \<and>
         fst (segment_store cfg a_s a_v (snd (segment_store cfg a_s a_v s0)))
           = fst (segment_store cfg a_s a_v s0) \<and>
         heap (snd (segment_store cfg a_s a_v s0)) a_s = heap s0 a_s \<and>
         heap (snd (segment_store cfg a_s a_v s0)) a_v = heap s0 a_v \<and>
         same_below (fresh s0) s0 (snd (segment_store cfg a_s a_v s0))"
proof -
  let ?s' = "snd (segment_store cfg a_s a_v s0)"
  from segment_store_refines [OF assms(1-4), of cfg]
  have r: "fst (segment_store cfg a_s a_v s0) = segment cfg es"
      "heap ?s' a_s = Some (StrList (map fst es))" "heap ?s' a_v = Some (VecList (map snd es))"
      "same_below (fresh s0) s0 ?s'" "fresh s0 \<le> fresh ?s'"
    by simp_all
  from segment_store_refines [OF assms(5-8), of cfg]
  have r1: "fst (segment_store cfg b_s b_v s1) = segment cfg es"
    by simp
  from r(5) assms(3,4) have "a_s < fresh ?s'" "a_v < fresh ?s'"
    by simp_all
  from segment_store_refines [OF r(2,3) this, of cfg]
  have r2: "fst (segment_store cfg a_s a_v ?s') = segment cfg es"
    by simp
  from r r1 r2 assms(1,2) show ?thesis by simp
qed

theorem segment_deterministic_without_mutation_witness:
  "heap example_store 0 = Some (StrList (map fst [(''A.'', [1, 0]), (''B.'', [1, 0]), (''C.'', [0, 1])])) \<and>
   heap example_store 1 = Some (VecList (map snd [(''A.'', [1, 0]), (''B.'', [1, 0]), (''C.'', [0, 1])])) \<and>
   0 < fresh example_store \<and> 1 < fresh example_store \<and>
   heap other_store 5 = Some (StrList (map fst [(''A.'', [1, 0]), (''B.'', [1, 0]), (''C.'', [0, 1])])) \<and>
   heap other_store 3 = Some (VecList (map snd [(''A.'', [1, 0]), (''B.'', [1, 0]), (''C.'', [0, 1])])) \<and>
   5 < fresh other_store \<and> 3 < fresh other_store \<and>
   fst (segment_store default_config 0 1 example_store) = Inr [''A. B.'', ''C.''] \<and>
   fst (segment_store default_config 5 3 other_store) = Inr [''A. B.'', ''C.''] \<and>
   heap (snd (segment_store default_config 0 1 example_store)) 0
     = Some (StrList [''A.'', ''B.'', ''C.''])"
proof -
  let ?es = "[(''A.'', [1, 0]), (''B.'', [1, 0]), (''C.'', [0, 1::real])]"
  have a: "heap example_store 0 = Some (StrList (map fst ?es))"
      "heap example_store 1 = Some (VecList (map snd ?es))"
      "0 < fresh example_store" "1 < fresh example_store"
    by (simp_all add: example_store_def)
  have b: "heap other_store 5 = Some (StrList (map fst ?es))"
      "heap other_store 3 = Some (VecList (map snd ?es))"
      "5 < fresh other_store" "3 < fresh other_store"
    by (simp_all add: other_store_def)
  have seg: "segment default_config ?es = Inr [''A. B.'', ''C.'']"
    by (simp add: eval_segment)
  from segment_deterministic_without_mutation [OF a b, of default_config] a b seg
  show ?thesis by simp
qed

end
